theory Spec2Isabelle
  imports Complex_Main "HOL-Library.Word" "HOL-Library.Sublist" "HOL-Library.Extended_Nat"
begin

section \<open>JavaScript strings\<close>

text \<open>
  A JavaScript string is a sequence of UTF-16 code units; \<open>length\<close>, \<open>includes\<close>,
  \<open>toLowerCase\<close> and a regular expression without the \<open>u\<close> flag all work on code units.
  \<open>ascii\<close> writes a string literal of the source as code units.
\<close>

type_synonym code_unit = "16 word"
type_synonym jsstring = "code_unit list"

definition ascii :: "string \<Rightarrow> jsstring" where
  "ascii s = map (\<lambda>c. of_nat (of_char c)) s"

text \<open>
  \<open>String.prototype.toLowerCase\<close>, code unit by code unit. The table is the one of the
  Unicode default case conversion for Basic Latin (A-Z), the Latin-1 Supplement
  (U+00C0..U+00DE without the multiplication sign U+00D7) and U+0130, the capital I with
  dot above, the one code point whose lower case is two code units long (U+0069 U+0307).
  Code units of other blocks are left as they are, so the model is exact on strings over
  U+0000..U+00FF and U+0130; no theorem below depends on what it does elsewhere.
\<close>

definition lower_unit :: "code_unit \<Rightarrow> jsstring" where
  "lower_unit c =
     (if 0x41 \<le> c \<and> c \<le> 0x5A then [c + 0x20]
      else if 0xC0 \<le> c \<and> c \<le> 0xDE \<and> c \<noteq> 0xD7 then [c + 0x20]
      else if c = 0x130 then [0x69, 0x307]
      else [c])"

definition toLowerCase :: "jsstring \<Rightarrow> jsstring" where
  "toLowerCase s = concat (map lower_unit s)"

text \<open>\<open>s.includes(t)\<close>: \<open>t\<close> occurs in \<open>s\<close> as a contiguous run of code units.\<close>

fun js_includes :: "jsstring \<Rightarrow> jsstring \<Rightarrow> bool" where
  "js_includes [] t = (t = [])"
| "js_includes (c # s) t = (prefix t (c # s) \<or> js_includes s t)"

text \<open>
  \<open>username.replace(/[^a-z0-9]/gi, '_')\<close>: the class is negated and case-insensitive,
  and without the \<open>u\<close> flag no code unit from U+0080 on is canonicalised to an ASCII
  letter, so exactly the code units that are not an ASCII letter or digit are replaced,
  one underscore per code unit.
\<close>

definition is_alnum :: "code_unit \<Rightarrow> bool" where
  "is_alnum c =
     ((0x30 \<le> c \<and> c \<le> 0x39) \<or> (0x41 \<le> c \<and> c \<le> 0x5A) \<or> (0x61 \<le> c \<and> c \<le> 0x7A))"

definition replace_non_alnum :: "jsstring \<Rightarrow> jsstring" where
  "replace_non_alnum s = map (\<lambda>c. if is_alnum c then c else 0x5F) s"

section \<open>Data model\<close>

text \<open>
  One element of \<open>response.data.items\<close>: the fields of
  \<open>item.snippet.topLevelComment.snippet\<close> that \<open>getComments\<close> reads, and
  \<open>replies_comments\<close>, which is \<open>None\<close> when \<open>item.replies\<close> is absent and otherwise
  the length of \<open>item.replies.comments\<close>.
\<close>

record item =
  authorDisplayName :: jsstring
  authorProfileImageUrl :: jsstring
  publishedAt :: jsstring
  textDisplay :: jsstring
  snippet_likeCount :: nat
  replies_comments :: "nat option"

record response =
  items :: "item list"
  nextPageToken :: "jsstring option"

text \<open>
  The parameters of \<open>getComments\<close> after the destructuring with its defaults
  (\<open>maxLimit = 10\<close>, \<open>minLikes = 0\<close>, \<open>minReplies = 0\<close>, \<open>filteredWords = []\<close>,
  \<open>maxChars = Infinity\<close>, \<open>theme = 'dark'\<close>). \<open>maxLimit\<close> is a
  JavaScript number, here a real number (no \<open>NaN\<close>, no infinity): \<open>validateParams\<close> lets
  0 through and every number from 1 up, whole or not. The other numbers are the integers
  that the messages of \<open>validateParams\<close> ask for, and \<open>maxChars\<close> is an extended natural
  number for the sake of \<open>Infinity\<close>.
\<close>

record params =
  videoIds :: "jsstring list"
  searchTerms :: "jsstring list"
  maxLimit :: real
  minLikes :: nat
  minReplies :: nat
  filteredWords :: "jsstring list"
  maxChars :: enat
  theme :: jsstring

record commentData =
  avatar :: jsstring
  username :: jsstring
  datePosted :: jsstring
  likeCount :: nat
  content :: jsstring

text \<open>
  The entries pushed on \<open>reason\<close>, with the numbers their template strings interpolate:
  what was needed or allowed, and what the comment had.
\<close>

datatype reason =
  NotEnoughLikes nat nat
| NotEnoughReplies nat nat
| FilteredWord
| ExceededMaxChars enat nat

datatype error = RangeError_InvalidTime | Thrown nat

text \<open>A JavaScript \<open>Date\<close>: a time value in milliseconds, or the Invalid Date.\<close>

datatype date = ValidDate int | InvalidDate

text \<open>
  What \<open>page.setContent\<close> receives: the holes of the two template strings, and the
  theme switch that picks every colour and icon.
\<close>

record document =
  doc_avatar :: jsstring
  doc_username :: jsstring
  doc_relativeDate :: jsstring
  doc_content :: jsstring
  doc_likeCount :: nat
  doc_dark :: bool

type_synonym box = "int \<times> int \<times> int \<times> int"
type_synonym png = "8 word list"

text \<open>
  The collaborators, each a function of its arguments that returns or throws:
  \<^item> \<open>list_threads videoId pageToken\<close> is \<open>youtube.commentThreads.list\<close>;
  \<^item> \<open>parseISO\<close> is date-fns's, on a string; \<open>parseISO_Date\<close> is the same function on
    the \<open>Date\<close> object the \<open>catch\<close> branch hands it; \<open>newDate\<close> is \<open>new Date(string)\<close>,
    which never throws;
  \<^item> \<open>distanceToNow\<close> is the label \<open>formatDistanceToNow\<close> gives a valid date;
  \<^item> \<open>boundingBox\<close> stands for the browser calls from \<open>puppeteer.launch\<close> to
    \<open>commentContainer.boundingBox()\<close>, \<open>screenshot\<close> for \<open>page.screenshot\<close> and
    \<open>browser_close\<close> for \<open>browser.close\<close>.
\<close>

record env =
  list_threads :: "jsstring \<Rightarrow> jsstring \<Rightarrow> error + response"
  parseISO :: "jsstring \<Rightarrow> error + date"
  parseISO_Date :: "date \<Rightarrow> error + date"
  newDate :: "jsstring \<Rightarrow> date"
  distanceToNow :: "int \<Rightarrow> jsstring"
  boundingBox :: "document \<Rightarrow> error + box"
  screenshot :: "document \<Rightarrow> box \<Rightarrow> error + png"
  browser_close :: "document \<Rightarrow> error option"

text \<open>The effects of a run, in the order they happen.\<close>

datatype event =
  Log_Fetching jsstring
| Api_List jsstring jsstring
| Log_Rejected jsstring "reason list"
| Log_Date jsstring
| Log_DateError error
| Write_File jsstring
| Log_Saved jsstring jsstring
| Log_SavedCustom jsstring
| Log_Error error

text \<open>
  The state a run works on: the effects so far, the \<open>comment-images\<close> directory and the
  files in it, and the counter \<open>totalCommentsFetched\<close> of \<open>getComments\<close>.
\<close>

record state =
  trace :: "event list"
  dir_exists :: bool
  files :: "jsstring \<rightharpoonup> png"
  totalCommentsFetched :: nat

text \<open>A call returns a value, or throws; either way the effects it had remain.\<close>

datatype 'a outcome = Return 'a state | Throw error state

definition emit :: "event \<Rightarrow> state \<Rightarrow> state" where
  "emit e st = st\<lparr>trace := trace st @ [e]\<rparr>"

section \<open>The renderer\<close>

definition isValid :: "date \<Rightarrow> bool" where
  "isValid d = (case d of ValidDate t \<Rightarrow> True | InvalidDate \<Rightarrow> False)"

text \<open>\<open>formatDistanceToNow\<close> throws a \<open>RangeError\<close> (Invalid time value) on the Invalid Date.\<close>

definition formatDistanceToNow :: "env \<Rightarrow> date \<Rightarrow> error + jsstring" where
  "formatDistanceToNow E d =
     (case d of InvalidDate \<Rightarrow> Inl RangeError_InvalidTime
      | ValidDate t \<Rightarrow> Inr (distanceToNow E t))"

definition isDarkTheme :: "jsstring \<Rightarrow> bool" where
  "isDarkTheme th = (th = ascii ''dark'')"

text \<open>The \<open>try\<close> block of \<open>generateCommentHTML\<close> and its \<open>catch\<close>.\<close>

definition parse_datePosted :: "env \<Rightarrow> jsstring \<Rightarrow> state \<Rightarrow> date outcome" where
  "parse_datePosted E d st =
     (let st1 = emit (Log_Date d) st in
      case parseISO E d of
        Inr isoDate \<Rightarrow> Return (if isValid isoDate then isoDate else newDate E d) st1
      | Inl err \<Rightarrow>
          (let st2 = emit (Log_DateError err) st1 in
           case parseISO_Date E (newDate E d) of
             Inl err2 \<Rightarrow> Throw err2 st2
           | Inr parsed \<Rightarrow> Return parsed st2))"

definition generateCommentHTML :: "env \<Rightarrow> commentData \<Rightarrow> jsstring \<Rightarrow> state \<Rightarrow> document outcome" where
  "generateCommentHTML E cd th st =
     (case parse_datePosted E (datePosted cd) st of
        Throw err st1 \<Rightarrow> Throw err st1
      | Return parsedDate st1 \<Rightarrow>
          (case formatDistanceToNow E parsedDate of
             Inl err \<Rightarrow> Throw err st1
           | Inr relativeDate \<Rightarrow>
               Return \<lparr>doc_avatar = avatar cd, doc_username = username cd,
                       doc_relativeDate = relativeDate, doc_content = content cd,
                       doc_likeCount = likeCount cd, doc_dark = isDarkTheme th\<rparr> st1))"

text \<open>
  \<open>path.join('comment-images', ...)\<close> with the POSIX separator; the sanitized name has
  no dot and no separator, so there is nothing for \<open>path.join\<close> to normalise.
\<close>

definition filePath :: "jsstring \<Rightarrow> jsstring" where
  "filePath name =
     ascii ''comment-images/'' @ toLowerCase (replace_non_alnum name) @ ascii ''.png''"

text \<open>
  The directory is made, if it is not there, after the bounding box was found and before
  the screenshot; the screenshot writes the file, replacing any file of that name.
\<close>

definition generateCommentImage :: "env \<Rightarrow> commentData \<Rightarrow> jsstring \<Rightarrow> state \<Rightarrow> unit outcome" where
  "generateCommentImage E cd th st =
     (case generateCommentHTML E cd th st of
        Throw err st1 \<Rightarrow> Throw err st1
      | Return commentHTML st1 \<Rightarrow>
          (case boundingBox E commentHTML of
             Inl err \<Rightarrow> Throw err st1
           | Inr bbox \<Rightarrow>
               (let st2 = st1\<lparr>dir_exists := True\<rparr> in
                case screenshot E commentHTML bbox of
                  Inl err \<Rightarrow> Throw err st2
                | Inr shot \<Rightarrow>
                    (let st3 = emit (Write_File (filePath (username cd)))
                                 (st2\<lparr>files := (files st2)(filePath (username cd) \<mapsto> shot)\<rparr>) in
                     case browser_close E commentHTML of
                       Some err \<Rightarrow> Throw err st3
                     | None \<Rightarrow> Return () st3))))"

section \<open>The custom-render path\<close>

fun generateCustomComments :: "env \<Rightarrow> commentData list \<Rightarrow> jsstring \<Rightarrow> state \<Rightarrow> unit outcome" where
  "generateCustomComments E [] th st = Return () st"
| "generateCustomComments E (comment # comments) th st =
     (case generateCommentImage E comment th st of
        Throw err st1 \<Rightarrow> Throw err st1
      | Return u st1 \<Rightarrow>
          generateCustomComments E comments th (emit (Log_SavedCustom (username comment)) st1))"

section \<open>The fetch-filter pipeline\<close>

text \<open>The \<open>forEach\<close> over the search terms, which sets \<open>matched\<close> and never clears it.\<close>

definition matched :: "params \<Rightarrow> jsstring \<Rightarrow> bool" where
  "matched p commentText =
     foldl (\<lambda>m term. if js_includes commentText (toLowerCase term) then True else m)
       False (searchTerms p)"

definition replyCount :: "item \<Rightarrow> nat" where
  "replyCount it = (case replies_comments it of Some n \<Rightarrow> n | None \<Rightarrow> 0)"

text \<open>The four \<open>if\<close> statements that push on \<open>reason\<close>, one after the other.\<close>

definition reason :: "params \<Rightarrow> item \<Rightarrow> reason list" where
  "reason p it =
     (let commentText = toLowerCase (textDisplay it);
          r0 = [];
          r1 = (if snippet_likeCount it < minLikes p
                then r0 @ [NotEnoughLikes (minLikes p) (snippet_likeCount it)] else r0);
          r2 = (if replyCount it < minReplies p
                then r1 @ [NotEnoughReplies (minReplies p) (replyCount it)] else r1);
          r3 = (if list_ex (\<lambda>word. js_includes commentText (toLowerCase word)) (filteredWords p)
                then r2 @ [FilteredWord] else r2);
          r4 = (if enat (length commentText) > maxChars p
                then r3 @ [ExceededMaxChars (maxChars p) (length commentText)] else r3)
      in r4)"

definition commentData_of :: "item \<Rightarrow> commentData" where
  "commentData_of it =
     \<lparr>avatar = authorProfileImageUrl it, username = authorDisplayName it,
      datePosted = publishedAt it, likeCount = snippet_likeCount it,
      content = textDisplay it\<rparr>"

text \<open>The \<open>for\<close> loop over the items of one page, with its \<open>break\<close> at the quota.\<close>

fun items_loop :: "env \<Rightarrow> params \<Rightarrow> item list \<Rightarrow> state \<Rightarrow> unit outcome" where
  "items_loop E p [] st = Return () st"
| "items_loop E p (it # its) st =
     (if real (totalCommentsFetched st) \<ge> maxLimit p then Return () st
      else if matched p (toLowerCase (textDisplay it)) then
        (if length (reason p it) > 0 then
           items_loop E p its (emit (Log_Rejected (authorDisplayName it) (reason p it)) st)
         else
           (case generateCommentImage E (commentData_of it) (theme p) st of
              Throw err st1 \<Rightarrow> Throw err st1
            | Return u st1 \<Rightarrow>
                (let st2 = emit (Log_Saved (authorDisplayName it) (textDisplay it)) st1 in
                 items_loop E p its
                   (st2\<lparr>totalCommentsFetched := totalCommentsFetched st2 + 1\<rparr>))))
      else items_loop E p its st)"

text \<open>In a condition, \<open>nextPageToken\<close> counts when it is there and not the empty string.\<close>

definition truthy :: "jsstring option \<Rightarrow> bool" where
  "truthy tok = (case tok of None \<Rightarrow> False | Some t \<Rightarrow> t \<noteq> [])"

text \<open>
  The \<open>do ... while\<close> loop over the pages of one video. A source that hands out page
  tokens for ever keeps it running, so the loop takes fuel, one unit per page, and
  \<open>None\<close> says that the fuel ran out before the loop ended. When the response has no
  token the source assigns \<open>undefined\<close>, which is only tested, never sent.
\<close>

fun page_loop :: "nat \<Rightarrow> env \<Rightarrow> params \<Rightarrow> jsstring \<Rightarrow> jsstring \<Rightarrow> state \<Rightarrow> unit outcome option" where
  "page_loop 0 E p videoId pageToken st = None"
| "page_loop (Suc fuel) E p videoId pageToken st =
     (let st1 = emit (Api_List videoId pageToken) st in
      case list_threads E videoId pageToken of
        Inl err \<Rightarrow> Some (Throw err st1)
      | Inr resp \<Rightarrow>
          (case items_loop E p (items resp) st1 of
             Throw err st2 \<Rightarrow> Some (Throw err st2)
           | Return u st2 \<Rightarrow>
               (if truthy (nextPageToken resp) \<and> real (totalCommentsFetched st2) < maxLimit p
                then page_loop fuel E p videoId (the (nextPageToken resp)) st2
                else Some (Return () st2))))"

text \<open>The \<open>for\<close> loop over the video identifiers, with its \<open>break\<close> at the quota.\<close>

fun video_loop :: "nat \<Rightarrow> env \<Rightarrow> params \<Rightarrow> jsstring list \<Rightarrow> state \<Rightarrow> unit outcome option" where
  "video_loop fuel E p [] st = Some (Return () st)"
| "video_loop fuel E p (videoId # rest) st =
     (case page_loop fuel E p videoId [] (emit (Log_Fetching videoId) st) of
        None \<Rightarrow> None
      | Some (Throw err st1) \<Rightarrow> Some (Throw err st1)
      | Some (Return u st1) \<Rightarrow>
          (if real (totalCommentsFetched st1) \<ge> maxLimit p then Some (Return () st1)
           else video_loop fuel E p rest st1))"

text \<open>
  \<open>validateParams\<close>, true when it returns without throwing. On parameters of the types
  above only two of its checks can fail: \<open>maxLimit\<close> is 0, which the check skips as
  falsy, or at least 1; \<open>theme\<close> is the empty string, skipped as well, or \<open>dark\<close> or
  \<open>light\<close>.
\<close>

definition validateParams :: "params \<Rightarrow> bool" where
  "validateParams p \<longleftrightarrow>
     (maxLimit p = 0 \<or> 1 \<le> maxLimit p)
     \<and> (theme p = [] \<or> theme p = ascii ''dark'' \<or> theme p = ascii ''light'')"

text \<open>
  \<open>getComments\<close>, from the parameters that \<open>validateParams\<close> let through: the counter
  starts at 0, the loops run inside \<open>try\<close>, and the \<open>catch\<close> logs the error and returns.
  The result is the state the promise resolves in.
\<close>

definition getComments :: "nat \<Rightarrow> env \<Rightarrow> params \<Rightarrow> state \<Rightarrow> state option" where
  "getComments fuel E p st =
     (case video_loop fuel E p (videoIds p) (st\<lparr>totalCommentsFetched := 0\<rparr>) of
        None \<Rightarrow> None
      | Some (Return u st1) \<Rightarrow> Some st1
      | Some (Throw err st1) \<Rightarrow> Some (emit (Log_Error err) st1))"

text \<open>The branch of \<open>getComments\<close> that takes a record: render it, log it, count it, go on.\<close>

definition accept :: "env \<Rightarrow> params \<Rightarrow> item \<Rightarrow> item list \<Rightarrow> state \<Rightarrow> unit outcome" where
  "accept E p it its st =
     (case generateCommentImage E (commentData_of it) (theme p) st of
        Throw err st1 \<Rightarrow> Throw err st1
      | Return u st1 \<Rightarrow>
          items_loop E p its
            ((emit (Log_Saved (authorDisplayName it) (textDisplay it)) st1)
               \<lparr>totalCommentsFetched := totalCommentsFetched st1 + 1\<rparr>))"

section \<open>Observations on a run\<close>

text \<open>The state an outcome carries, and whether the outcome is an exception.\<close>

definition outcome_state :: "'a outcome \<Rightarrow> state" where
  "outcome_state r = (case r of Return u st \<Rightarrow> st | Throw err st \<Rightarrow> st)"

definition is_throw :: "'a outcome \<Rightarrow> bool" where
  "is_throw r = (case r of Throw err st \<Rightarrow> True | Return u st \<Rightarrow> False)"

text \<open>
  The kinds of effect. \<open>generateCommentHTML\<close> logs \<open>datePosted\<close> before anything else,
  so a \<open>Log_Date\<close> marks one invocation of the renderer; a \<open>Log_Saved\<close> marks one
  accepted record, right before the counter goes up.
\<close>

definition is_saved :: "event \<Rightarrow> bool" where
  "is_saved e = (case e of Log_Saved u c \<Rightarrow> True | _ \<Rightarrow> False)"

definition is_invocation :: "event \<Rightarrow> bool" where
  "is_invocation e = (case e of Log_Date d \<Rightarrow> True | _ \<Rightarrow> False)"

definition is_error_log :: "event \<Rightarrow> bool" where
  "is_error_log e = (case e of Log_Error err \<Rightarrow> True | _ \<Rightarrow> False)"

definition is_render_tail :: "event \<Rightarrow> bool" where
  "is_render_tail e = (case e of Log_DateError err \<Rightarrow> True | Write_File f \<Rightarrow> True | _ \<Rightarrow> False)"

definition is_fetch_event :: "event \<Rightarrow> bool" where
  "is_fetch_event e =
     (case e of Log_Fetching v \<Rightarrow> True | Api_List v t \<Rightarrow> True | Log_Error err \<Rightarrow> True
      | _ \<Rightarrow> False)"

definition answered :: "env \<Rightarrow> event \<Rightarrow> bool" where
  "answered E e = (case e of Api_List v t \<Rightarrow> \<not> isl (list_threads E v t) | _ \<Rightarrow> True)"

definition saved_count :: "event list \<Rightarrow> nat" where
  "saved_count evs = length (filter is_saved evs)"

definition invoked_count :: "event list \<Rightarrow> nat" where
  "invoked_count evs = length (filter is_invocation evs)"

definition written :: "event list \<Rightarrow> jsstring list" where
  "written evs = concat (map (\<lambda>e. case e of Write_File f \<Rightarrow> [f] | _ \<Rightarrow> []) evs)"

text \<open>
  A clean trace: no error was logged, the source answered every request, and every
  invocation of the renderer was followed by its record being saved.
\<close>

definition clean :: "env \<Rightarrow> event list \<Rightarrow> bool" where
  "clean E evs \<longleftrightarrow>
     \<not> list_ex is_error_log evs \<and> list_all (answered E) evs \<and> invoked_count evs = saved_count evs"

text \<open>
  \<open>kept E fs evs fs'\<close>: between the disks \<open>fs\<close> and \<open>fs'\<close> a file that \<open>evs\<close> does not
  write is untouched, contents included, and a file that \<open>evs\<close> writes is there and holds
  a screenshot that the browser gave.
\<close>

definition is_shot :: "env \<Rightarrow> png \<Rightarrow> bool" where
  "is_shot E shot \<longleftrightarrow> (\<exists>doc bbox. screenshot E doc bbox = Inr shot)"

definition kept :: "env \<Rightarrow> (jsstring \<rightharpoonup> png) \<Rightarrow> event list \<Rightarrow> (jsstring \<rightharpoonup> png) \<Rightarrow> bool" where
  "kept E fs evs fs' \<longleftrightarrow>
     (\<forall>f. f \<notin> set (written evs) \<longrightarrow> fs' f = fs f)
     \<and> (\<forall>f \<in> set (written evs). \<exists>shot. is_shot E shot \<and> fs' f = Some shot)"

text \<open>
  \<open>reach E p ini s\<close>: from \<open>ini\<close> the state \<open>s\<close> comes about by steps of the pipeline
  that succeed, each exactly as the code takes it: the log of a video, a request that the
  source answers, the log of a rejection, and a render that returns, followed by its log
  and its count. \<open>failed E p err s0 s1\<close>: in \<open>s0\<close> a collaborator throws \<open>err\<close> and
  leaves \<open>s1\<close>: the source refuses a request, or the renderer throws on a comment.
  \<open>ended\<close> says where an outcome of the loops stands: a state reached, or the state a
  failure left after a state reached.
\<close>

inductive reach :: "env \<Rightarrow> params \<Rightarrow> state \<Rightarrow> state \<Rightarrow> bool" for E p ini where
  reach_start: "reach E p ini ini"
| reach_fetching: "reach E p ini s \<Longrightarrow> reach E p ini (emit (Log_Fetching v) s)"
| reach_request: "reach E p ini s \<Longrightarrow> list_threads E v t = Inr resp \<Longrightarrow>
    reach E p ini (emit (Api_List v t) s)"
| reach_rejected: "reach E p ini s \<Longrightarrow>
    reach E p ini (emit (Log_Rejected (authorDisplayName it) (reason p it)) s)"
| reach_saved: "reach E p ini s \<Longrightarrow>
    generateCommentImage E (commentData_of it) (theme p) s = Return u s1 \<Longrightarrow>
    reach E p ini ((emit (Log_Saved (authorDisplayName it) (textDisplay it)) s1)
                     \<lparr>totalCommentsFetched := totalCommentsFetched s1 + 1\<rparr>)"

definition failed :: "env \<Rightarrow> params \<Rightarrow> error \<Rightarrow> state \<Rightarrow> state \<Rightarrow> bool" where
  "failed E p err s0 s1 \<longleftrightarrow>
     (\<exists>v t. list_threads E v t = Inl err \<and> s1 = emit (Api_List v t) s0)
     \<or> (\<exists>it. generateCommentImage E (commentData_of it) (theme p) s0 = Throw err s1)"

definition ended :: "env \<Rightarrow> params \<Rightarrow> state \<Rightarrow> unit outcome \<Rightarrow> bool" where
  "ended E p ini r =
     (case r of Return u s \<Rightarrow> reach E p ini s
      | Throw err s1 \<Rightarrow> (\<exists>s0. reach E p ini s0 \<and> failed E p err s0 s1))"


section \<open>Sample data\<close>

text \<open>
  One video whose only page holds three comments, two of which contain \<open>cat\<close>, all
  collaborators answering; the state before anything ran; and the state the run ends in
  when the quota is 1.
\<close>

definition st0 :: state where
  "st0 = \<lparr>trace = [], dir_exists = False, files = Map.empty, totalCommentsFetched = 0\<rparr>"

definition cat_item :: item where
  "cat_item = \<lparr>authorDisplayName = ascii ''Ann'', authorProfileImageUrl = ascii ''a.png'',
     publishedAt = ascii ''2023-07-01T14:48:00.000Z'', textDisplay = ascii ''My Cat'',
     snippet_likeCount = 3, replies_comments = None\<rparr>"

definition dog_item :: item where
  "dog_item = \<lparr>authorDisplayName = ascii ''Bob'', authorProfileImageUrl = ascii ''b.png'',
     publishedAt = ascii ''2023-06-15T14:48:00.000Z'', textDisplay = ascii ''A dog'',
     snippet_likeCount = 5, replies_comments = Some 2\<rparr>"

definition cats_item :: item where
  "cats_item = \<lparr>authorDisplayName = ascii ''Cy'', authorProfileImageUrl = ascii ''c.png'',
     publishedAt = ascii ''2023-05-21T14:48:00.000Z'', textDisplay = ascii ''cats!'',
     snippet_likeCount = 0, replies_comments = None\<rparr>"

definition sample_params :: params where
  "sample_params = \<lparr>videoIds = [ascii ''v1''], searchTerms = [ascii ''cat''], maxLimit = 1,
     minLikes = 0, minReplies = 0, filteredWords = [], maxChars = \<infinity>, theme = ascii ''dark''\<rparr>"

definition sample_env :: env where
  "sample_env = \<lparr>
     list_threads = (\<lambda>v t. Inr \<lparr>items = [cat_item, dog_item, cats_item], nextPageToken = None\<rparr>),
     parseISO = (\<lambda>s. Inr (if s = [] then InvalidDate else ValidDate 0)),
     parseISO_Date = (\<lambda>d. Inr InvalidDate),
     newDate = (\<lambda>s. if s = [] then InvalidDate else ValidDate 0),
     distanceToNow = (\<lambda>t. ascii ''about 1 year ago''),
     boundingBox = (\<lambda>d. Inr (8, 8, 520, 90)),
     screenshot = (\<lambda>d b. Inr [of_nat (doc_likeCount d)]),
     browser_close = (\<lambda>d. None)\<rparr>"

text \<open>The same run under a quota of one and a half, and the state it ends in.\<close>

definition fraction_params :: params where
  "fraction_params = sample_params\<lparr>maxLimit := 3 / 2\<rparr>"

definition over_final :: state where
  "over_final = \<lparr>trace = [Log_Fetching (ascii ''v1''), Api_List (ascii ''v1'') [],
       Log_Date (ascii ''2023-07-01T14:48:00.000Z''), Write_File (ascii ''comment-images/ann.png''),
       Log_Saved (ascii ''Ann'') (ascii ''My Cat''),
       Log_Date (ascii ''2023-05-21T14:48:00.000Z''), Write_File (ascii ''comment-images/cy.png''),
       Log_Saved (ascii ''Cy'') (ascii ''cats!'')],
     dir_exists = True,
     files = [ascii ''comment-images/ann.png'' \<mapsto> [3], ascii ''comment-images/cy.png'' \<mapsto> [0]],
     totalCommentsFetched = 2\<rparr>"

definition strict_params :: params where
  "strict_params = sample_params\<lparr>minLikes := 5, maxChars := 3\<rparr>"

definition no_terms_params :: params where
  "no_terms_params = sample_params\<lparr>searchTerms := []\<rparr>"

definition any_params :: params where
  "any_params = sample_params\<lparr>searchTerms := [[]]\<rparr>"


text \<open>
  The file name of \<open>generateCommentImage\<close> code unit by code unit: an upper-case ASCII
  letter becomes its lower case, a lower-case ASCII letter or a digit stays, and anything
  else becomes an underscore.
\<close>

definition sanitize_unit :: "code_unit \<Rightarrow> code_unit" where
  "sanitize_unit c =
     (if 0x41 \<le> c \<and> c \<le> 0x5A then c + 0x20 else if is_alnum c then c else 0x5F)"

text \<open>
  The file name as the specification words it: the user name is lower-cased, then every
  character outside \<open>[a-z0-9]\<close> is replaced by an underscore.
\<close>

definition is_lower_alnum :: "code_unit \<Rightarrow> bool" where
  "is_lower_alnum c = ((0x30 \<le> c \<and> c \<le> 0x39) \<or> (0x61 \<le> c \<and> c \<le> 0x7A))"

definition spec_sanitize :: "jsstring \<Rightarrow> jsstring" where
  "spec_sanitize name = map (\<lambda>c. if is_lower_alnum c then c else 0x5F) (toLowerCase name)"

text \<open>
  Two custom comments whose user names differ and give the same file name, and the state
  after rendering both; the three custom comments of the README, and the state after
  rendering them.
\<close>

definition obrien_first :: commentData where
  "obrien_first = \<lparr>avatar = ascii ''https://i.imgur.com/umjyrKZ.png'', username = ascii ''O'Brien!'',
     datePosted = ascii ''2023-07-01T14:48:00.000Z'', likeCount = 5, content = ascii ''First''\<rparr>"

definition obrien_second :: commentData where
  "obrien_second = \<lparr>avatar = ascii ''https://i.imgur.com/cYX8pg3.png'', username = ascii ''o-brien?'',
     datePosted = ascii ''2023-06-15T14:48:00.000Z'', likeCount = 10, content = ascii ''Second''\<rparr>"

definition obrien_final :: state where
  "obrien_final = \<lparr>trace =
       [Log_Date (ascii ''2023-07-01T14:48:00.000Z''), Write_File (ascii ''comment-images/o_brien_.png''),
        Log_SavedCustom (ascii ''O'Brien!''),
        Log_Date (ascii ''2023-06-15T14:48:00.000Z''), Write_File (ascii ''comment-images/o_brien_.png''),
        Log_SavedCustom (ascii ''o-brien?'')],
     dir_exists = True, files = [ascii ''comment-images/o_brien_.png'' \<mapsto> [10]],
     totalCommentsFetched = 0\<rparr>"

definition readme_comments :: "commentData list" where
  "readme_comments =
     [\<lparr>avatar = ascii ''https://i.imgur.com/umjyrKZ.png'', username = ascii ''GigaDemon'',
       datePosted = ascii ''2023-07-01T14:48:00.000Z'', likeCount = 5,
       content = ascii ''I CANT STOP EATING FLESH.''\<rparr>,
      \<lparr>avatar = ascii ''https://i.imgur.com/cYX8pg3.png'', username = ascii ''TechGoblin'',
       datePosted = ascii ''2023-06-15T14:48:00.000Z'', likeCount = 10,
       content = ascii ''Have you tried eating it?''\<rparr>,
      \<lparr>avatar = ascii ''https://i.imgur.com/cygNEPo.png'', username = ascii ''ConcernedKirsten'',
       datePosted = ascii ''2023-05-21T14:48:00.000Z'', likeCount = 3,
       content = ascii ''Oh no.....''\<rparr>]"

definition readme_final :: state where
  "readme_final = \<lparr>trace =
       [Log_Date (ascii ''2023-07-01T14:48:00.000Z''), Write_File (ascii ''comment-images/gigademon.png''),
        Log_SavedCustom (ascii ''GigaDemon''),
        Log_Date (ascii ''2023-06-15T14:48:00.000Z''), Write_File (ascii ''comment-images/techgoblin.png''),
        Log_SavedCustom (ascii ''TechGoblin''),
        Log_Date (ascii ''2023-05-21T14:48:00.000Z''),
        Write_File (ascii ''comment-images/concernedkirsten.png''),
        Log_SavedCustom (ascii ''ConcernedKirsten'')],
     dir_exists = True,
     files = [ascii ''comment-images/gigademon.png'' \<mapsto> [5],
              ascii ''comment-images/techgoblin.png'' \<mapsto> [10],
              ascii ''comment-images/concernedkirsten.png'' \<mapsto> [3]],
     totalCommentsFetched = 0\<rparr>"

text \<open>
  A comment whose date neither parser accepts, with parsers that reject it; a comment
  whose text starts with U+0130, with a search term it contains and a maximum length of 3.
\<close>

definition undated_item :: item where
  "undated_item = cat_item\<lparr>publishedAt := ascii ''yesterday''\<rparr>"

definition undated_env :: env where
  "undated_env = sample_env\<lparr>
     parseISO := (\<lambda>s. Inr (if s = ascii ''yesterday'' then InvalidDate else ValidDate 0)),
     newDate := (\<lambda>s. if s = ascii ''yesterday'' then InvalidDate else ValidDate 0)\<rparr>"

definition iyi_item :: item where
  "iyi_item = \<lparr>authorDisplayName = ascii ''Ali'', authorProfileImageUrl = ascii ''ali.png'',
     publishedAt = ascii ''2023-07-01T14:48:00.000Z'', textDisplay = [0x130, 0x79, 0x69],
     snippet_likeCount = 1, replies_comments = None\<rparr>"

definition tight_params :: params where
  "tight_params = sample_params\<lparr>searchTerms := [ascii ''yi''], maxLimit := 10, maxChars := 3\<rparr>"








section \<open>Lemmas\<close>

subsection \<open>Matching and skipping\<close>

lemma js_includes_sublist: "js_includes s t = sublist t s"
  by (induction s) (simp_all add: sublist_Cons_right)

lemma js_includes_iff: "js_includes s t \<longleftrightarrow> (\<exists>a b. s = a @ t @ b)"
  by (simp add: js_includes_sublist sublist_def)

lemma js_includes_empty: "js_includes s []"
  by (simp add: js_includes_sublist)

lemma foldl_flag:
  "foldl (\<lambda>m x. if P x then True else m) b xs \<longleftrightarrow> b \<or> (\<exists>x \<in> set xs. P x)"
  by (induction xs arbitrary: b) auto

lemma matched_iff:
  "matched p c \<longleftrightarrow> (\<exists>t \<in> set (searchTerms p). js_includes c (toLowerCase t))"
  by (simp add: matched_def foldl_flag)

lemma items_loop_unmatched:
  "\<not> matched p (toLowerCase (textDisplay it)) \<Longrightarrow> items_loop E p (it # its) st = items_loop E p its st"
  by (induction its) auto

lemma items_loop_at_quota:
  "maxLimit p \<le> totalCommentsFetched st \<Longrightarrow> items_loop E p its st = Return () st"
  by (cases its) auto

lemma items_loop_filter:
  "items_loop E p (filter (\<lambda>it. matched p (toLowerCase (textDisplay it))) its) st = items_loop E p its st"
proof (induction its arbitrary: st)
  case Nil
  then show ?case by simp
next
  case (Cons it its)
  show ?case
  proof (cases "matched p (toLowerCase (textDisplay it))")
    case False
    then show ?thesis using Cons.IH by (simp add: items_loop_at_quota)
  next
    case True
    then show ?thesis using Cons.IH
      by (simp split: outcome.splits)
  qed
qed

lemma items_loop_no_terms:
  "searchTerms p = [] \<Longrightarrow> items_loop E p its st = Return () st"
  by (induction its) (auto simp: matched_def)

lemma page_loop_no_terms:
  "searchTerms p = [] \<Longrightarrow> page_loop k E p v t st = Some r \<Longrightarrow>
   \<exists>evs. outcome_state r = st\<lparr>trace := trace st @ evs\<rparr> \<and> (\<forall>e \<in> set evs. is_fetch_event e)"
proof (induction k arbitrary: t st r)
  case 0
  then show ?case by simp
next
  case (Suc k)
  let ?st1 = "emit (Api_List v t) st"
  show ?case
  proof (cases "list_threads E v t")
    case (Inl err)
    with Suc.prems have "r = Throw err ?st1" by simp
    then have "outcome_state r = st\<lparr>trace := trace st @ [Api_List v t]\<rparr>"
      by (simp add: outcome_state_def emit_def)
    then show ?thesis
      by (intro exI[of _ "[Api_List v t]"]) (simp add: is_fetch_event_def)
  next
    case (Inr resp)
    have items: "items_loop E p (items resp) ?st1 = Return () ?st1"
      using Suc.prems(1) by (rule items_loop_no_terms)
    show ?thesis
    proof (cases "truthy (nextPageToken resp) \<and> totalCommentsFetched ?st1 < maxLimit p")
      case True
      with Suc.prems Inr items
      have "page_loop k E p v (the (nextPageToken resp)) ?st1 = Some r" by simp
      from Suc.IH [OF Suc.prems(1) this] obtain evs where
        evs: "outcome_state r = ?st1\<lparr>trace := trace ?st1 @ evs\<rparr>" "\<forall>e \<in> set evs. is_fetch_event e"
        by blast
      from evs(1) have "outcome_state r = st\<lparr>trace := trace st @ (Api_List v t # evs)\<rparr>"
        by (simp add: emit_def)
      with evs(2) show ?thesis
        by (intro exI[of _ "Api_List v t # evs"]) (simp add: is_fetch_event_def)
    next
      case False
      with Suc.prems Inr items have "r = Return () ?st1" by auto
      then have "outcome_state r = st\<lparr>trace := trace st @ [Api_List v t]\<rparr>"
        by (simp add: outcome_state_def emit_def)
      then show ?thesis
        by (intro exI[of _ "[Api_List v t]"]) (simp add: is_fetch_event_def)
    qed
  qed
qed

subsection \<open>Observations on traces\<close>

lemma outcome_state_simps [simp]:
  "outcome_state (Return u st) = st" "outcome_state (Throw err st) = st"
  by (simp_all add: outcome_state_def)

lemma is_throw_simps [simp]:
  "is_throw (Throw err st)" "\<not> is_throw (Return u st)"
  by (simp_all add: is_throw_def)

lemma saved_count_simps [simp]:
  "saved_count [] = 0"
  "saved_count (xs @ ys) = saved_count xs + saved_count ys"
  "saved_count (e # xs) = (if is_saved e then 1 else 0) + saved_count xs"
  by (simp_all add: saved_count_def)

lemma invoked_count_simps [simp]:
  "invoked_count [] = 0"
  "invoked_count (xs @ ys) = invoked_count xs + invoked_count ys"
  "invoked_count (e # xs) = (if is_invocation e then 1 else 0) + invoked_count xs"
  by (simp_all add: invoked_count_def)

lemma written_simps [simp]:
  "written [] = []"
  "written (xs @ ys) = written xs @ written ys"
  "written (Write_File f # xs) = f # written xs"
  "written (Log_Date d # xs) = written xs"
  "written (Log_DateError err # xs) = written xs"
  "written (Log_Saved u c # xs) = written xs"
  "written (Log_Rejected u rs # xs) = written xs"
  "written (Api_List v t # xs) = written xs"
  "written (Log_Fetching v # xs) = written xs"
  "written (Log_Error err # xs) = written xs"
  by (simp_all add: written_def)

lemma is_event_simps [simp]:
  "is_saved (Log_Saved u c)" "\<not> is_saved (Log_Date d)" "\<not> is_saved (Log_DateError err)"
  "\<not> is_saved (Write_File f)" "\<not> is_saved (Log_Rejected u rs)" "\<not> is_saved (Api_List v t)"
  "\<not> is_saved (Log_Fetching v)" "\<not> is_saved (Log_Error err)" "\<not> is_saved (Log_SavedCustom u)"
  "is_invocation (Log_Date d)" "\<not> is_invocation (Log_Saved u c)" "\<not> is_invocation (Log_DateError err)"
  "\<not> is_invocation (Write_File f)" "\<not> is_invocation (Log_Rejected u rs)"
  "\<not> is_invocation (Api_List v t)" "\<not> is_invocation (Log_Fetching v)"
  "\<not> is_invocation (Log_Error err)" "\<not> is_invocation (Log_SavedCustom u)"
  "is_error_log (Log_Error err)" "\<not> is_error_log (Log_Date d)" "\<not> is_error_log (Log_Saved u c)"
  "\<not> is_error_log (Log_DateError err)" "\<not> is_error_log (Write_File f)"
  "\<not> is_error_log (Log_Rejected u rs)" "\<not> is_error_log (Api_List v t)"
  "\<not> is_error_log (Log_Fetching v)" "\<not> is_error_log (Log_SavedCustom u)"
  by (simp_all add: is_saved_def is_invocation_def is_error_log_def)

lemma answered_simps [simp]:
  "answered E (Api_List v t) = (\<not> isl (list_threads E v t))"
  "answered E (Log_Saved u c)" "answered E (Log_Date d)" "answered E (Log_DateError err)"
  "answered E (Write_File f)" "answered E (Log_Rejected u rs)" "answered E (Log_Fetching v)"
  "answered E (Log_Error err)" "answered E (Log_SavedCustom u)"
  by (simp_all add: answered_def)

lemma clean_Nil [simp]: "clean E []"
  by (simp add: clean_def)

subsection \<open>What a render does to the state\<close>

lemma parse_datePosted_effect:
  "parse_datePosted E d st = r \<Longrightarrow>
   \<exists>es. outcome_state r = st\<lparr>trace := trace st @ Log_Date d # es\<rparr>
      \<and> (es = [] \<or> (\<exists>err. es = [Log_DateError err]))"
  by (auto simp: parse_datePosted_def Let_def emit_def split: sum.splits)

lemma generateCommentHTML_effect:
  "generateCommentHTML E cd th st = r \<Longrightarrow>
   \<exists>es. outcome_state r = st\<lparr>trace := trace st @ Log_Date (datePosted cd) # es\<rparr>
      \<and> (es = [] \<or> (\<exists>err. es = [Log_DateError err]))"
proof -
  assume r: "generateCommentHTML E cd th st = r"
  obtain q where q: "parse_datePosted E (datePosted cd) st = q" by simp
  from r q have "outcome_state r = outcome_state q"
    by (auto simp: generateCommentHTML_def split: outcome.splits sum.splits)
  with parse_datePosted_effect [OF q] show ?thesis by simp
qed

lemma generateCommentImage_Return:
  assumes "generateCommentImage E cd th st = Return u st'"
  shows "\<exists>es shot. st' = st\<lparr>trace := trace st @ Log_Date (datePosted cd) # es
                                  @ [Write_File (filePath (username cd))],
                        dir_exists := True,
                        files := (files st)(filePath (username cd) \<mapsto> shot)\<rparr>
            \<and> (es = [] \<or> (\<exists>err. es = [Log_DateError err]))"
proof -
  obtain q where q: "generateCommentHTML E cd th st = q" by simp
  from generateCommentHTML_effect [OF q] obtain es where es:
    "outcome_state q = st\<lparr>trace := trace st @ Log_Date (datePosted cd) # es\<rparr>"
    "es = [] \<or> (\<exists>err. es = [Log_DateError err])" by blast
  from assms q obtain doc st1 where doc: "q = Return doc st1"
    by (cases q) (auto simp: generateCommentImage_def)
  with es have st1: "st1 = st\<lparr>trace := trace st @ Log_Date (datePosted cd) # es\<rparr>" by simp
  from assms q doc obtain shot where
    "st' = emit (Write_File (filePath (username cd)))
             (st1\<lparr>dir_exists := True, files := (files st1)(filePath (username cd) \<mapsto> shot)\<rparr>)"
    by (auto simp: generateCommentImage_def Let_def split: sum.splits option.splits)
  with st1 have "st' = st\<lparr>trace := trace st @ Log_Date (datePosted cd) # es
                                  @ [Write_File (filePath (username cd))],
                        dir_exists := True,
                        files := (files st)(filePath (username cd) \<mapsto> shot)\<rparr>"
    by (simp add: emit_def)
  with es(2) show ?thesis by blast
qed

text \<open>What any render, returning or not, does to the trace, the counter and the files.\<close>

lemma is_shotI: "screenshot E doc bbox = Inr shot \<Longrightarrow> is_shot E shot"
  unfolding is_shot_def by blast

lemma kept_refl [simp]: "kept E fs [] fs"
  by (simp add: kept_def)


lemma kept_no_write: "written evs = [] \<Longrightarrow> kept E fs evs fs"
  by (simp add: kept_def)

lemma generateCommentImage_kept:
  assumes "generateCommentImage E cd th s = r"
  shows "\<exists>es. trace (outcome_state r) = trace s @ Log_Date (datePosted cd) # es
      \<and> list_all is_render_tail es
      \<and> totalCommentsFetched (outcome_state r) = totalCommentsFetched s
      \<and> kept E (files s) es (files (outcome_state r))"
proof -
  obtain q where q: "generateCommentHTML E cd th s = q" by simp
  from generateCommentHTML_effect [OF q] obtain es where es:
    "outcome_state q = s\<lparr>trace := trace s @ Log_Date (datePosted cd) # es\<rparr>"
    "es = [] \<or> (\<exists>err. es = [Log_DateError err])" by blast
  let ?s1 = "s\<lparr>trace := trace s @ Log_Date (datePosted cd) # es\<rparr>"
  let ?f = "filePath (username cd)"
  from es(2) have tail: "list_all is_render_tail es" "written es = []"
    by (auto simp: is_render_tail_def)
  from assms q es(1) have
    "outcome_state r = ?s1 \<or> outcome_state r = ?s1\<lparr>dir_exists := True\<rparr>
      \<or> (\<exists>shot. is_shot E shot \<and>
            outcome_state r = emit (Write_File ?f) (?s1\<lparr>dir_exists := True, files := (files ?s1)(?f \<mapsto> shot)\<rparr>))"
    by (cases q)
       (auto simp: generateCommentImage_def Let_def split: sum.splits option.splits dest: is_shotI)
  then show ?thesis
  proof (elim disjE exE conjE)
    assume "outcome_state r = ?s1"
    with tail show ?thesis
      by (intro exI[of _ es]) (simp add: kept_no_write)
  next
    assume "outcome_state r = ?s1\<lparr>dir_exists := True\<rparr>"
    with tail show ?thesis
      by (intro exI[of _ es]) (simp add: kept_no_write)
  next
    fix shot
    assume sh: "is_shot E shot"
      and o: "outcome_state r = emit (Write_File ?f) (?s1\<lparr>dir_exists := True, files := (files ?s1)(?f \<mapsto> shot)\<rparr>)"
    have "kept E (files s) (es @ [Write_File ?f]) ((files s)(?f \<mapsto> shot))"
      using sh tail(2) unfolding kept_def by auto
    with o tail(1) show ?thesis
      by (intro exI[of _ "es @ [Write_File ?f]"]) (simp add: emit_def is_render_tail_def)
  qed
qed


subsection \<open>States that a run reaches\<close>




text \<open>Every outcome of the loops is a state reached or a failure after a state reached.\<close>

lemma ended_simps [simp]:
  "ended E p ini (Return u s) = reach E p ini s"
  "ended E p ini (Throw err s1) = (\<exists>s0. reach E p ini s0 \<and> failed E p err s0 s1)"
  by (simp_all add: ended_def)




subsection \<open>Runs that end\<close>




subsection \<open>Exceptions leave the loops\<close>



subsection \<open>Whole quotas\<close>

text \<open>With a whole number for a quota the counter stays within it.\<close>

lemma items_loop_whole_quota:
  assumes "maxLimit p = real n"
  shows "totalCommentsFetched s \<le> n \<Longrightarrow> totalCommentsFetched (outcome_state (items_loop E p its s)) \<le> n"
proof (induction its arbitrary: s)
  case Nil
  then show ?case by simp
next
  case (Cons it its)
  show ?case
  proof (cases "maxLimit p \<le> totalCommentsFetched s")
    case True
    with Cons.prems show ?thesis by simp
  next
    case below: False
    with assms have lt: "totalCommentsFetched s < n" by simp
    show ?thesis
    proof (cases "matched p (toLowerCase (textDisplay it))")
      case False
      with below Cons show ?thesis by simp
    next
      case True
      show ?thesis
      proof (cases "reason p it = []")
        case False
        with True below Cons.IH [of "emit (Log_Rejected (authorDisplayName it) (reason p it)) s"]
          Cons.prems show ?thesis by (simp add: emit_def)
      next
        case accepted: True
        show ?thesis
        proof (cases "generateCommentImage E (commentData_of it) (theme p) s")
          case (Throw err s1)
          from generateCommentImage_kept [OF Throw] have "totalCommentsFetched s1 = totalCommentsFetched s"
            by auto
          with Throw accepted True below Cons.prems show ?thesis by simp
        next
          case (Return u s1)
          from generateCommentImage_kept [OF Return] have "totalCommentsFetched s1 = totalCommentsFetched s"
            by auto
          with lt Cons.IH [of "(emit (Log_Saved (authorDisplayName it) (textDisplay it)) s1)
                  \<lparr>totalCommentsFetched := totalCommentsFetched s1 + 1\<rparr>"]
            Return accepted True below show ?thesis by (simp add: Let_def emit_def)
        qed
      qed
    qed
  qed
qed

lemma page_loop_whole_quota:
  assumes "maxLimit p = real n"
  shows "totalCommentsFetched s \<le> n \<Longrightarrow> page_loop k E p v t s = Some r \<Longrightarrow>
         totalCommentsFetched (outcome_state r) \<le> n"
proof (induction k arbitrary: t s)
  case 0
  then show ?case by simp
next
  case (Suc k)
  let ?s1 = "emit (Api_List v t) s"
  from Suc.prems(1) have s1: "totalCommentsFetched ?s1 \<le> n" by (simp add: emit_def)
  show ?case
  proof (cases "list_threads E v t")
    case (Inl err)
    with Suc.prems s1 show ?thesis by auto
  next
    case (Inr resp)
    from items_loop_whole_quota [OF assms s1]
    have q: "totalCommentsFetched (outcome_state (items_loop E p (items resp) ?s1)) \<le> n" .
    show ?thesis
    proof (cases "items_loop E p (items resp) ?s1")
      case (Throw err s2)
      with Suc.prems(2) Inr q show ?thesis by auto
    next
      case (Return u s2)
      with q have s2: "totalCommentsFetched s2 \<le> n" by simp
      show ?thesis
      proof (cases "truthy (nextPageToken resp) \<and> totalCommentsFetched s2 < maxLimit p")
        case True
        with Suc.prems(2) Inr Return
        have "page_loop k E p v (the (nextPageToken resp)) s2 = Some r" by simp
        from Suc.IH [OF s2 this] show ?thesis .
      next
        case False
        with Suc.prems(2) Inr Return s2 show ?thesis by auto
      qed
    qed
  qed
qed

lemma video_loop_whole_quota:
  assumes "maxLimit p = real n"
  shows "totalCommentsFetched s \<le> n \<Longrightarrow> video_loop k E p vs s = Some r \<Longrightarrow>
         totalCommentsFetched (outcome_state r) \<le> n"
proof (induction vs arbitrary: s)
  case Nil
  then show ?case by auto
next
  case (Cons v vs)
  from Cons.prems(2) obtain q where q: "page_loop k E p v [] (emit (Log_Fetching v) s) = Some q"
    by (auto split: option.splits)
  from Cons.prems(1) have "totalCommentsFetched (emit (Log_Fetching v) s) \<le> n" by (simp add: emit_def)
  from page_loop_whole_quota [OF assms this q] have le: "totalCommentsFetched (outcome_state q) \<le> n" .
  show ?case
  proof (cases q)
    case (Throw err s1)
    with Cons.prems(2) q le show ?thesis by auto
  next
    case (Return u s1)
    show ?thesis
    proof (cases "maxLimit p \<le> totalCommentsFetched s1")
      case True
      with Cons.prems(2) q Return le show ?thesis by auto
    next
      case False
      with Cons.prems(2) q Return have "video_loop k E p vs s1 = Some r" by simp
      from Cons.IH [OF _ this] le Return show ?thesis by simp
    qed
  qed
qed

lemma whole_quota_is_respected:
  assumes "maxLimit p = real n" "getComments k E p st = Some st'"
  shows "totalCommentsFetched st' \<le> n"
proof -
  from assms(2) obtain r where r: "video_loop k E p (videoIds p) (st\<lparr>totalCommentsFetched := 0\<rparr>) = Some r"
    by (auto simp: getComments_def split: option.splits)
  from video_loop_whole_quota [OF assms(1) _ r] have "totalCommentsFetched (outcome_state r) \<le> n"
    by simp
  with assms(2) r show ?thesis
    by (cases r) (auto simp: getComments_def emit_def)
qed

subsection \<open>Evaluation of the samples\<close>

lemmas sample_defs = st0_def cat_item_def dog_item_def cats_item_def sample_params_def
  sample_env_def

lemmas model_defs = getComments_def emit_def matched_def reason_def replyCount_def
  commentData_of_def generateCommentImage_def generateCommentHTML_def parse_datePosted_def
  formatDistanceToNow_def isValid_def isDarkTheme_def filePath_def replace_non_alnum_def
  is_alnum_def toLowerCase_def lower_unit_def truthy_def ascii_def

subsection \<open>Matched records, and runs without search terms\<close>

lemma items_loop_matched:
  assumes "totalCommentsFetched st < maxLimit p" "matched p (toLowerCase (textDisplay it))"
  shows "items_loop E p (it # its) st =
           (if reason p it = [] then accept E p it its st
            else items_loop E p its (emit (Log_Rejected (authorDisplayName it) (reason p it)) st))"
  using assms by (simp add: accept_def Let_def emit_def split: outcome.splits)

lemma video_loop_no_terms:
  "searchTerms p = [] \<Longrightarrow> video_loop k E p vs st = Some r \<Longrightarrow>
   \<exists>evs. outcome_state r = st\<lparr>trace := trace st @ evs\<rparr> \<and> (\<forall>e \<in> set evs. is_fetch_event e)"
proof (induction vs arbitrary: st r)
  case Nil
  then show ?case by (intro exI[of _ "[]"]) auto
next
  case (Cons v vs)
  let ?st1 = "emit (Log_Fetching v) st"
  from Cons.prems(2) obtain q where q: "page_loop k E p v [] ?st1 = Some q"
    by (auto split: option.splits)
  from page_loop_no_terms [OF Cons.prems(1) q] obtain evs where evs:
    "outcome_state q = ?st1\<lparr>trace := trace ?st1 @ evs\<rparr>" "\<forall>e \<in> set evs. is_fetch_event e"
    by blast
  from evs(1) have st_q: "outcome_state q = st\<lparr>trace := trace st @ Log_Fetching v # evs\<rparr>"
    by (simp add: emit_def)
  from evs(2) have all_q: "\<forall>e \<in> set (Log_Fetching v # evs). is_fetch_event e"
    by (simp add: is_fetch_event_def)
  show ?case
  proof (cases "is_throw q \<or> maxLimit p \<le> totalCommentsFetched (outcome_state q)")
    case True
    with Cons.prems(2) q have "outcome_state r = outcome_state q"
      by (cases q) (auto split: if_splits)
    with st_q all_q show ?thesis by (intro exI[of _ "Log_Fetching v # evs"]) simp
  next
    case False
    with Cons.prems(2) q have "video_loop k E p vs (outcome_state q) = Some r"
      by (cases q) (auto split: if_splits)
    from Cons.IH [OF Cons.prems(1) this] obtain evs2 where evs2:
      "outcome_state r = (outcome_state q)\<lparr>trace := trace (outcome_state q) @ evs2\<rparr>"
      "\<forall>e \<in> set evs2. is_fetch_event e" by blast
    from evs2(1) st_q have "outcome_state r = st\<lparr>trace := trace st @ (Log_Fetching v # evs) @ evs2\<rparr>"
      by simp
    moreover from all_q evs2(2) have "\<forall>e \<in> set ((Log_Fetching v # evs) @ evs2). is_fetch_event e"
      by auto
    ultimately show ?thesis by (intro exI[of _ "(Log_Fetching v # evs) @ evs2"]) simp
  qed
qed

lemma getComments_no_terms:
  assumes "searchTerms p = []" "getComments k E p st = Some st'"
  shows "\<exists>evs. st' = st\<lparr>trace := trace st @ evs, totalCommentsFetched := 0\<rparr>
            \<and> list_all is_fetch_event evs"
proof -
  let ?st0 = "st\<lparr>totalCommentsFetched := 0\<rparr>"
  from assms(2) obtain r where r: "video_loop k E p (videoIds p) ?st0 = Some r"
    by (auto simp: getComments_def split: option.splits)
  from video_loop_no_terms [OF assms(1) r] obtain evs where evs:
    "outcome_state r = ?st0\<lparr>trace := trace ?st0 @ evs\<rparr>" "\<forall>e \<in> set evs. is_fetch_event e"
    by blast
  show ?thesis
  proof (cases r)
    case (Return u st1)
    with assms(2) r evs(1) have "st' = st\<lparr>trace := trace st @ evs, totalCommentsFetched := 0\<rparr>"
      by (auto simp: getComments_def)
    with evs(2) show ?thesis by (intro exI[of _ evs]) (simp add: list_all_iff)
  next
    case (Throw err st1)
    with assms(2) r evs(1)
    have "st' = st\<lparr>trace := trace st @ (evs @ [Log_Error err]), totalCommentsFetched := 0\<rparr>"
      by (auto simp: getComments_def emit_def)
    moreover from evs(2) have "list_all is_fetch_event (evs @ [Log_Error err])"
      by (simp add: list_all_iff is_fetch_event_def)
    ultimately show ?thesis by (intro exI[of _ "evs @ [Log_Error err]"]) simp
  qed
qed

subsection \<open>Renders that return, and the custom-render path\<close>

text \<open>What a render that returns does to any state.\<close>

lemma parse_datePosted_frame:
  "parse_datePosted E d st = Return dt st' \<Longrightarrow>
   \<exists>es. (es = [] \<or> (\<exists>err. es = [Log_DateError err])) \<and>
     (\<forall>s. parse_datePosted E d s = Return dt (s\<lparr>trace := trace s @ Log_Date d # es\<rparr>))"
  by (auto simp: parse_datePosted_def Let_def emit_def split: sum.splits)

lemma generateCommentImage_frame:
  assumes "generateCommentImage E cd th st = Return u st'"
  shows "\<exists>es shot. (es = [] \<or> (\<exists>err. es = [Log_DateError err])) \<and>
     (\<forall>s. generateCommentImage E cd th s =
          Return () (s\<lparr>trace := trace s @ Log_Date (datePosted cd) # es
                                @ [Write_File (filePath (username cd))],
                       dir_exists := True,
                       files := (files s)(filePath (username cd) \<mapsto> shot)\<rparr>))"
proof -
  from assms obtain dt st1 where p: "parse_datePosted E (datePosted cd) st = Return dt st1"
    by (auto simp: generateCommentImage_def generateCommentHTML_def split: outcome.splits)
  from parse_datePosted_frame [OF p] obtain es where es:
    "es = [] \<or> (\<exists>err. es = [Log_DateError err])"
    "\<And>s. parse_datePosted E (datePosted cd) s
          = Return dt (s\<lparr>trace := trace s @ Log_Date (datePosted cd) # es\<rparr>)" by blast
  from assms p obtain label where l: "formatDistanceToNow E dt = Inr label"
    by (auto simp: generateCommentImage_def generateCommentHTML_def split: sum.splits)
  let ?doc = "\<lparr>doc_avatar = avatar cd, doc_username = username cd,
                doc_relativeDate = label, doc_content = content cd,
                doc_likeCount = likeCount cd, doc_dark = isDarkTheme th\<rparr>"
  from assms p l obtain bbox shot where b: "boundingBox E ?doc = Inr bbox"
    and sh: "screenshot E ?doc bbox = Inr shot" and c: "browser_close E ?doc = None"
    by (auto simp: generateCommentImage_def generateCommentHTML_def Let_def
             split: sum.splits option.splits)
  have "generateCommentImage E cd th s =
          Return () (s\<lparr>trace := trace s @ Log_Date (datePosted cd) # es
                                @ [Write_File (filePath (username cd))],
                       dir_exists := True,
                       files := (files s)(filePath (username cd) \<mapsto> shot)\<rparr>)" for s
    by (simp add: generateCommentImage_def generateCommentHTML_def es(2) l b sh c emit_def)
  with es(1) show ?thesis by blast
qed

lemma generateCustomComments_effect:
  "generateCustomComments E comments th st = Return u st' \<Longrightarrow>
   \<exists>evs. trace st' = trace st @ evs
     \<and> filter is_invocation evs = map (\<lambda>c. Log_Date (datePosted c)) comments
     \<and> written evs = map (\<lambda>c. filePath (username c)) comments
     \<and> dom (files st') = dom (files st) \<union> set (map (\<lambda>c. filePath (username c)) comments)"
proof (induction comments arbitrary: st)
  case Nil
  then show ?case by simp
next
  case (Cons c cs)
  from Cons.prems obtain u1 st1 where r: "generateCommentImage E c th st = Return u1 st1"
    by (auto split: outcome.splits)
  let ?st2 = "emit (Log_SavedCustom (username c)) st1"
  from Cons.prems r have rest: "generateCustomComments E cs th ?st2 = Return u st'" by simp
  from generateCommentImage_Return [OF r] obtain es shot where st1:
    "st1 = st\<lparr>trace := trace st @ Log_Date (datePosted c) # es @ [Write_File (filePath (username c))],
              dir_exists := True, files := (files st)(filePath (username c) \<mapsto> shot)\<rparr>"
    "es = [] \<or> (\<exists>err. es = [Log_DateError err])" by blast
  from Cons.IH [OF rest] obtain evs where evs:
    "trace st' = trace ?st2 @ evs"
    "filter is_invocation evs = map (\<lambda>c. Log_Date (datePosted c)) cs"
    "written evs = map (\<lambda>c. filePath (username c)) cs"
    "dom (files st') = dom (files ?st2) \<union> set (map (\<lambda>c. filePath (username c)) cs)" by blast
  let ?new = "Log_Date (datePosted c) # es @ [Write_File (filePath (username c)), Log_SavedCustom (username c)] @ evs"
  have "trace st' = trace st @ ?new" using evs(1) st1(1) by (simp add: emit_def)
  moreover have "filter is_invocation ?new = map (\<lambda>c. Log_Date (datePosted c)) (c # cs)"
    using evs(2) st1(2) by auto
  moreover have "written ?new = map (\<lambda>c. filePath (username c)) (c # cs)"
    using evs(3) st1(2) by (auto simp: written_def)
  moreover have "dom (files st') = dom (files st) \<union> set (map (\<lambda>c. filePath (username c)) (c # cs))"
    using evs(4) st1(1) by (auto simp: emit_def)
  ultimately show ?case by blast
qed

subsection \<open>File names\<close>

lemma upper_plus_32:
  fixes c :: code_unit
  assumes "0x41 \<le> c" "c \<le> 0x5A"
  shows "0x61 \<le> c + 0x20 \<and> c + 0x20 \<le> 0x7A"
proof -
  from assms have "65 \<le> unat c" "unat c \<le> 90"
    by (simp_all add: word_le_nat_alt)
  then have "unat (c + 0x20) = unat c + 32"
    by (simp add: unat_word_ariths)
  with \<open>65 \<le> unat c\<close> \<open>unat c \<le> 90\<close> show ?thesis
    by (simp add: word_le_nat_alt)
qed

lemma lower_unit_sanitized:
  "lower_unit (if is_alnum c then c else 0x5F) = [sanitize_unit c]"
proof -
  have "unat c \<le> 122 \<Longrightarrow> c \<noteq> 0x130" by auto
  then show ?thesis
    by (auto simp: lower_unit_def is_alnum_def sanitize_unit_def word_le_nat_alt)
qed

lemma toLowerCase_replace:
  "toLowerCase (replace_non_alnum name) = map sanitize_unit name"
  by (induction name) (simp_all add: toLowerCase_def replace_non_alnum_def lower_unit_sanitized)

lemma spec_unit_ascii:
  fixes c :: code_unit
  assumes "c < 0x80"
  shows "map (\<lambda>c. if is_lower_alnum c then c else 0x5F) (lower_unit c) = [sanitize_unit c]"
proof (cases "0x41 \<le> c \<and> c \<le> 0x5A")
  case True
  with upper_plus_32 [of c] show ?thesis
    by (simp add: lower_unit_def sanitize_unit_def is_lower_alnum_def)
next
  case False
  from assms have "unat c < 128" by (simp add: word_less_nat_alt)
  then have "\<not> 0xC0 \<le> c" "c \<noteq> 0x130" by (auto simp: word_le_nat_alt)
  with False show ?thesis
    by (auto simp: lower_unit_def sanitize_unit_def is_lower_alnum_def is_alnum_def)
qed

lemma spec_sanitize_ascii:
  "list_all (\<lambda>c. c < 0x80) name \<Longrightarrow> spec_sanitize name = map sanitize_unit name"
  unfolding spec_sanitize_def toLowerCase_def
  by (induction name) (simp_all add: spec_unit_ascii)

lemma later_render_overwrites:
  assumes same: "filePath (username c1) = filePath (username c2)"
    and run: "generateCustomComments E [c1, c2] th st = Return u st'"
  shows "\<exists>st''. generateCustomComments E [c2] th st = Return () st'' \<and> files st' = files st''"
proof -
  from run obtain u1 s1 where r1: "generateCommentImage E c1 th st = Return u1 s1"
    by (auto split: outcome.splits)
  let ?s1 = "emit (Log_SavedCustom (username c1)) s1"
  from run r1 obtain u2 s2 where r2: "generateCommentImage E c2 th ?s1 = Return u2 s2"
    by (auto split: outcome.splits)
  from run r1 r2 have st': "st' = emit (Log_SavedCustom (username c2)) s2" by simp
  from generateCommentImage_Return [OF r1] obtain shot1 where
    f1: "files s1 = (files st)(filePath (username c1) \<mapsto> shot1)" by auto
  from generateCommentImage_frame [OF r2] obtain es shot2 where fr:
    "\<And>s. generateCommentImage E c2 th s =
          Return () (s\<lparr>trace := trace s @ Log_Date (datePosted c2) # es
                                @ [Write_File (filePath (username c2))],
                       dir_exists := True,
                       files := (files s)(filePath (username c2) \<mapsto> shot2)\<rparr>)" by blast
  from fr [of ?s1] r2 have "files s2 = (files ?s1)(filePath (username c2) \<mapsto> shot2)" by simp
  with f1 same st' have "files st' = (files st)(filePath (username c2) \<mapsto> shot2)"
    by (simp add: emit_def)
  moreover from fr [of st] have "\<exists>st''. generateCustomComments E [c2] th st = Return () st''
       \<and> files st'' = (files st)(filePath (username c2) \<mapsto> shot2)"
    by (simp add: emit_def)
  ultimately show ?thesis by auto
qed

subsection \<open>Dates that do not parse\<close>

lemma invalid_date_throws:
  assumes "parseISO E (datePosted cd) = Inr InvalidDate" "newDate E (datePosted cd) = InvalidDate"
  shows "generateCommentImage E cd th st
           = Throw RangeError_InvalidTime (emit (Log_Date (datePosted cd)) st)"
  using assms
  by (simp add: generateCommentImage_def generateCommentHTML_def parse_datePosted_def
        formatDistanceToNow_def isValid_def Let_def)

subsection \<open>Fuel\<close>

text \<open>More fuel never changes the result of a run that ended.\<close>

lemma page_loop_more_fuel:
  "page_loop k E p v t st = Some r \<Longrightarrow> k \<le> k' \<Longrightarrow> page_loop k' E p v t st = Some r"
proof (induction k arbitrary: k' t st)
  case 0
  then show ?case by simp
next
  case (Suc k)
  from Suc.prems(2) obtain j where k': "k' = Suc j" and le: "k \<le> j" by (cases k') auto
  show ?case
  proof (cases "list_threads E v t")
    case (Inl err)
    with Suc.prems(1) k' show ?thesis by simp
  next
    case (Inr resp)
    show ?thesis
    proof (cases "items_loop E p (items resp) (emit (Api_List v t) st)")
      case (Throw err st2)
      with Suc.prems(1) k' Inr show ?thesis by auto
    next
      case (Return u st2)
      show ?thesis
      proof (cases "truthy (nextPageToken resp) \<and> totalCommentsFetched st2 < maxLimit p")
        case True
        with Suc.prems(1) Inr Return
        have "page_loop k E p v (the (nextPageToken resp)) st2 = Some r" by simp
        from Suc.IH [OF this le] True Inr Return k' show ?thesis by simp
      next
        case False
        with Suc.prems(1) k' Inr Return show ?thesis by auto
      qed
    qed
  qed
qed

lemma video_loop_more_fuel:
  "video_loop k E p vs st = Some r \<Longrightarrow> k \<le> k' \<Longrightarrow> video_loop k' E p vs st = Some r"
proof (induction vs arbitrary: st)
  case Nil
  then show ?case by simp
next
  case (Cons v vs)
  from Cons.prems(1) obtain q where q: "page_loop k E p v [] (emit (Log_Fetching v) st) = Some q"
    by (auto split: option.splits)
  from page_loop_more_fuel [OF q Cons.prems(2)]
  have q': "page_loop k' E p v [] (emit (Log_Fetching v) st) = Some q" .
  show ?case
  proof (cases q)
    case (Throw err st1)
    with Cons.prems(1) q q' show ?thesis by auto
  next
    case (Return u st1)
    show ?thesis
    proof (cases "maxLimit p \<le> totalCommentsFetched st1")
      case True
      with Cons.prems(1) q q' Return show ?thesis by auto
    next
      case False
      with Cons.prems(1) q Return have "video_loop k E p vs st1 = Some r" by simp
      from Cons.IH [OF this Cons.prems(2)] False q' Return show ?thesis by simp
    qed
  qed
qed

lemma getComments_more_fuel:
  assumes "getComments k E p st = Some st'" "k \<le> k'"
  shows "getComments k' E p st = Some st'"
proof -
  from assms(1) obtain r where r: "video_loop k E p (videoIds p) (st\<lparr>totalCommentsFetched := 0\<rparr>) = Some r"
    by (auto simp: getComments_def split: option.splits)
  from video_loop_more_fuel [OF r assms(2)] r assms(1) show ?thesis
    by (simp add: getComments_def)
qed

section \<open>The claims\<close>

text \<open>
  Claim C1. \<open>validateParams\<close> lets a quota of one and a half through, and under it the
  run over one page with two matching comments renders both and counts both: the renderer
  is invoked twice and \<open>totalCommentsFetched\<close> ends at 2, above \<open>maxLimit\<close>. The loops
  stop when the counter is at or above the quota, which after a count below a quota that
  is not whole is one record too late.
\<close>

theorem fractional_quota_is_exceeded:
  "validateParams fraction_params
   \<and> maxLimit fraction_params = 3 / 2
   \<and> getComments (Suc 0) sample_env fraction_params st0 = Some over_final
   \<and> totalCommentsFetched over_final = 2
   \<and> invoked_count (trace over_final) = 2
   \<and> maxLimit fraction_params < real (totalCommentsFetched over_final)"
  by (simp add: validateParams_def fraction_params_def over_final_def sample_defs model_defs Let_def)

text \<open>
  Claim C2. The reasons of a record are the reasons of the failed checks among likes,
  replies, filtered words and maximum length, each check on its own and in that order. A
  matched record within the quota is taken exactly when that list is empty, and is logged
  as rejected with the list otherwise. A record that fails the likes check and the length
  check and no other has exactly these two reasons, likes first.
\<close>

theorem reasons_accumulate_in_order:
  "reason p it = map snd (filter fst
      [(snippet_likeCount it < minLikes p, NotEnoughLikes (minLikes p) (snippet_likeCount it)),
       (replyCount it < minReplies p, NotEnoughReplies (minReplies p) (replyCount it)),
       (list_ex (\<lambda>word. js_includes (toLowerCase (textDisplay it)) (toLowerCase word)) (filteredWords p),
        FilteredWord),
       (enat (length (toLowerCase (textDisplay it))) > maxChars p,
        ExceededMaxChars (maxChars p) (length (toLowerCase (textDisplay it))))])
   \<and> (totalCommentsFetched st < maxLimit p \<and> matched p (toLowerCase (textDisplay it)) \<longrightarrow>
        items_loop E p (it # its) st =
          (if reason p it = [] then accept E p it its st
           else items_loop E p its (emit (Log_Rejected (authorDisplayName it) (reason p it)) st)))
   \<and> (snippet_likeCount it < minLikes p \<and> \<not> replyCount it < minReplies p
        \<and> \<not> list_ex (\<lambda>word. js_includes (toLowerCase (textDisplay it)) (toLowerCase word)) (filteredWords p)
        \<and> enat (length (toLowerCase (textDisplay it))) > maxChars p \<longrightarrow>
        reason p it = [NotEnoughLikes (minLikes p) (snippet_likeCount it),
                       ExceededMaxChars (maxChars p) (length (toLowerCase (textDisplay it)))])"
proof (intro conjI)
  show "reason p it = map snd (filter fst
      [(snippet_likeCount it < minLikes p, NotEnoughLikes (minLikes p) (snippet_likeCount it)),
       (replyCount it < minReplies p, NotEnoughReplies (minReplies p) (replyCount it)),
       (list_ex (\<lambda>word. js_includes (toLowerCase (textDisplay it)) (toLowerCase word)) (filteredWords p),
        FilteredWord),
       (enat (length (toLowerCase (textDisplay it))) > maxChars p,
        ExceededMaxChars (maxChars p) (length (toLowerCase (textDisplay it))))])"
    by (simp add: reason_def Let_def)
  show "totalCommentsFetched st < maxLimit p \<and> matched p (toLowerCase (textDisplay it)) \<longrightarrow>
        items_loop E p (it # its) st =
          (if reason p it = [] then accept E p it its st
           else items_loop E p its (emit (Log_Rejected (authorDisplayName it) (reason p it)) st))"
    using items_loop_matched by blast
  show "snippet_likeCount it < minLikes p \<and> \<not> replyCount it < minReplies p
        \<and> \<not> list_ex (\<lambda>word. js_includes (toLowerCase (textDisplay it)) (toLowerCase word)) (filteredWords p)
        \<and> enat (length (toLowerCase (textDisplay it))) > maxChars p \<longrightarrow>
        reason p it = [NotEnoughLikes (minLikes p) (snippet_likeCount it),
                       ExceededMaxChars (maxChars p) (length (toLowerCase (textDisplay it)))]"
    by (simp add: reason_def Let_def)
qed

theorem reasons_accumulate_in_order_witness:
  "totalCommentsFetched st0 < maxLimit strict_params
   \<and> matched strict_params (toLowerCase (textDisplay cat_item))
   \<and> reason strict_params cat_item = [NotEnoughLikes 5 3, ExceededMaxChars 3 6]
   \<and> items_loop sample_env strict_params [cat_item] st0
       = Return () (emit (Log_Rejected (ascii ''Ann'') [NotEnoughLikes 5 3, ExceededMaxChars 3 6]) st0)"
proof -
  have guard: "totalCommentsFetched st0 < maxLimit strict_params
      \<and> matched strict_params (toLowerCase (textDisplay cat_item))"
    by (simp add: strict_params_def sample_defs model_defs)
  have checks: "snippet_likeCount cat_item < minLikes strict_params
      \<and> \<not> replyCount cat_item < minReplies strict_params
      \<and> \<not> list_ex (\<lambda>word. js_includes (toLowerCase (textDisplay cat_item)) (toLowerCase word))
            (filteredWords strict_params)
      \<and> enat (length (toLowerCase (textDisplay cat_item))) > maxChars strict_params"
    by (simp add: strict_params_def sample_defs model_defs)
  have vals: "minLikes strict_params = 5" "snippet_likeCount cat_item = 3"
    "maxChars strict_params = 3" "length (toLowerCase (textDisplay cat_item)) = 6"
    "authorDisplayName cat_item = ascii ''Ann''"
    by (simp_all add: strict_params_def sample_defs model_defs)
  note inst = reasons_accumulate_in_order [of strict_params cat_item st0 sample_env "[]"]
  from inst checks
  have "reason strict_params cat_item =
          [NotEnoughLikes (minLikes strict_params) (snippet_likeCount cat_item),
           ExceededMaxChars (maxChars strict_params) (length (toLowerCase (textDisplay cat_item)))]"
    by blast
  then have r: "reason strict_params cat_item = [NotEnoughLikes 5 3, ExceededMaxChars 3 6]"
    by (simp only: vals)
  from inst guard
  have "items_loop sample_env strict_params [cat_item] st0 =
          (if reason strict_params cat_item = [] then accept sample_env strict_params cat_item [] st0
           else items_loop sample_env strict_params []
                  (emit (Log_Rejected (authorDisplayName cat_item) (reason strict_params cat_item)) st0))"
    by blast
  then have "items_loop sample_env strict_params [cat_item] st0
       = Return () (emit (Log_Rejected (ascii ''Ann'') [NotEnoughLikes 5 3, ExceededMaxChars 3 6]) st0)"
    by (simp add: r vals del: items_loop.simps(2))
  with guard r show ?thesis by (simp del: items_loop.simps(2))
qed

text \<open>
  Claim C3. A record is matched exactly when its lower-cased text contains the lower-cased
  form of some search term as a contiguous run. With no search terms no record is
  matched, and a run changes nothing but the counter, which it resets, and the trace, to
  which it adds only the fetching logs, the page requests and possibly the error log: no
  record is rendered, saved or rejected and no file is written.
\<close>

theorem matched_iff_some_term_included:
  "(matched p (toLowerCase (textDisplay it)) \<longleftrightarrow>
      (\<exists>term \<in> set (searchTerms p). \<exists>before after.
          toLowerCase (textDisplay it) = before @ toLowerCase term @ after))
   \<and> (searchTerms p = [] \<longrightarrow> \<not> matched p (toLowerCase (textDisplay it)))
   \<and> (searchTerms p = [] \<and> getComments fuel E p st = Some st' \<longrightarrow>
        (\<exists>evs. st' = st\<lparr>trace := trace st @ evs, totalCommentsFetched := 0\<rparr>
            \<and> list_all is_fetch_event evs))"
proof (intro conjI impI)
  show "matched p (toLowerCase (textDisplay it)) \<longleftrightarrow>
      (\<exists>term \<in> set (searchTerms p). \<exists>before after.
          toLowerCase (textDisplay it) = before @ toLowerCase term @ after)"
    by (simp add: matched_iff js_includes_iff)
  show "\<not> matched p (toLowerCase (textDisplay it))" if "searchTerms p = []"
    using that by (simp add: matched_def)
  show "\<exists>evs. st' = st\<lparr>trace := trace st @ evs, totalCommentsFetched := 0\<rparr>
            \<and> list_all is_fetch_event evs"
    if "searchTerms p = [] \<and> getComments fuel E p st = Some st'"
    using that getComments_no_terms by blast
qed

theorem matched_iff_some_term_included_witness:
  "searchTerms no_terms_params = []
   \<and> getComments 1 sample_env no_terms_params st0
       = Some (st0\<lparr>trace := [Log_Fetching (ascii ''v1''), Api_List (ascii ''v1'') []]\<rparr>)
   \<and> \<not> matched no_terms_params (toLowerCase (textDisplay cat_item))
   \<and> matched sample_params (toLowerCase (textDisplay cat_item))
   \<and> toLowerCase (textDisplay cat_item) = ascii ''my '' @ toLowerCase (ascii ''cat'') @ []"
proof -
  have terms: "searchTerms no_terms_params = []"
    by (simp add: no_terms_params_def)
  have run: "getComments 1 sample_env no_terms_params st0
       = Some (st0\<lparr>trace := [Log_Fetching (ascii ''v1''), Api_List (ascii ''v1'') []]\<rparr>)"
    by (simp add: no_terms_params_def sample_defs model_defs Let_def)
  have occ: "toLowerCase (textDisplay cat_item) = ascii ''my '' @ toLowerCase (ascii ''cat'') @ []"
    by (simp add: sample_defs model_defs)
  have "ascii ''cat'' \<in> set (searchTerms sample_params)"
    by (simp add: sample_defs)
  with occ matched_iff_some_term_included [of sample_params cat_item]
  have "matched sample_params (toLowerCase (textDisplay cat_item))" by blast
  moreover from terms matched_iff_some_term_included [of no_terms_params cat_item]
  have "\<not> matched no_terms_params (toLowerCase (textDisplay cat_item))" by blast
  ultimately show ?thesis using terms run occ by simp
qed

text \<open>
  Claim C4. A record whose lower-cased text contains no search term leaves nothing behind:
  the loop goes on from the very same state, so no reason, log entry, render or count
  comes from it; a page gives the same outcome as the page without its unmatched records.
\<close>

theorem unmatched_records_are_skipped:
  "(\<not> matched p (toLowerCase (textDisplay it)) \<longrightarrow>
      items_loop E p (it # its) st = items_loop E p its st)
   \<and> items_loop E p (filter (\<lambda>it. matched p (toLowerCase (textDisplay it))) its) st
       = items_loop E p its st"
  using items_loop_unmatched items_loop_filter by blast

theorem unmatched_records_are_skipped_witness:
  "\<not> matched sample_params (toLowerCase (textDisplay dog_item))
   \<and> items_loop sample_env sample_params [dog_item] st0 = Return () st0"
proof -
  have "\<not> matched sample_params (toLowerCase (textDisplay dog_item))"
    by (simp add: sample_defs model_defs)
  with unmatched_records_are_skipped [of sample_params dog_item sample_env "[]" st0]
  show ?thesis by simp
qed

text \<open>
  Claim C10. When the empty string is among the search terms every record is matched.
  When it is the only search term, a record that the loop reaches within the quota and
  that passes the likes, replies, filtered-word and length checks is taken.
\<close>

theorem empty_search_term_matches_everything:
  "([] \<in> set (searchTerms p) \<longrightarrow> matched p (toLowerCase (textDisplay it)))
   \<and> (searchTerms p = [[]] \<and> totalCommentsFetched st < maxLimit p
        \<and> minLikes p \<le> snippet_likeCount it \<and> minReplies p \<le> replyCount it
        \<and> \<not> list_ex (\<lambda>word. js_includes (toLowerCase (textDisplay it)) (toLowerCase word)) (filteredWords p)
        \<and> enat (length (toLowerCase (textDisplay it))) \<le> maxChars p \<longrightarrow>
        items_loop E p (it # its) st = accept E p it its st)"
proof (intro conjI impI)
  assume "[] \<in> set (searchTerms p)"
  moreover have "js_includes (toLowerCase (textDisplay it)) (toLowerCase [])"
    by (simp add: toLowerCase_def js_includes_empty)
  ultimately show "matched p (toLowerCase (textDisplay it))"
    unfolding matched_iff by blast
next
  assume a: "searchTerms p = [[]] \<and> totalCommentsFetched st < maxLimit p
        \<and> minLikes p \<le> snippet_likeCount it \<and> minReplies p \<le> replyCount it
        \<and> \<not> list_ex (\<lambda>word. js_includes (toLowerCase (textDisplay it)) (toLowerCase word)) (filteredWords p)
        \<and> enat (length (toLowerCase (textDisplay it))) \<le> maxChars p"
  have "js_includes (toLowerCase (textDisplay it)) (toLowerCase [])"
    by (simp add: toLowerCase_def js_includes_empty)
  with a have m: "matched p (toLowerCase (textDisplay it))"
    unfolding matched_iff by simp
  from a have "reason p it = []" by (simp add: reason_def Let_def not_less)
  with items_loop_matched [of st p it E its] a m
  show "items_loop E p (it # its) st = accept E p it its st" by simp
qed

theorem empty_search_term_matches_everything_witness:
  "[] \<in> set (searchTerms any_params)
   \<and> matched any_params (toLowerCase (textDisplay dog_item))
   \<and> items_loop sample_env any_params [dog_item] st0 = accept sample_env any_params dog_item [] st0"
proof -
  have mem: "[] \<in> set (searchTerms any_params)"
    by (simp add: any_params_def)
  have checks: "searchTerms any_params = [[]] \<and> totalCommentsFetched st0 < maxLimit any_params
        \<and> minLikes any_params \<le> snippet_likeCount dog_item
        \<and> minReplies any_params \<le> replyCount dog_item
        \<and> \<not> list_ex (\<lambda>word. js_includes (toLowerCase (textDisplay dog_item)) (toLowerCase word))
              (filteredWords any_params)
        \<and> enat (length (toLowerCase (textDisplay dog_item))) \<le> maxChars any_params"
    by (simp add: any_params_def sample_defs model_defs)
  from empty_search_term_matches_everything [of any_params dog_item st0 sample_env "[]"] mem checks
  show ?thesis by blast
qed


text \<open>
  Claim C5. The length that \<open>getComments\<close> compares with \<open>maxChars\<close> is the length of
  the lower-cased text, not of the text as posted. A matched comment of three code units
  that starts with U+0130, whose lower case is two code units long, is rejected under a
  maximum of three characters, with a reason that reports four.
\<close>

theorem max_chars_counts_lowercased_text:
  "length (textDisplay iyi_item) = 3
   \<and> maxChars tight_params = 3
   \<and> matched tight_params (toLowerCase (textDisplay iyi_item))
   \<and> toLowerCase (textDisplay iyi_item) = [0x69, 0x307, 0x79, 0x69]
   \<and> reason tight_params iyi_item = [ExceededMaxChars 3 4]
   \<and> items_loop sample_env tight_params [iyi_item] st0
       = Return () (emit (Log_Rejected (ascii ''Ali'') [ExceededMaxChars 3 4]) st0)"
  by (simp add: iyi_item_def tight_params_def sample_defs model_defs Let_def)

text \<open>
  Claim C6 as stated, the file name being the lower-cased user name with every character
  outside \<open>[a-z0-9]\<close> replaced, fails for the user name U+0130: lower-casing first
  gives \<open>i_\<close>, the code gives a single underscore.
\<close>

theorem filename_lowercase_first_counterexample:
  "filePath [0x130] = ascii ''comment-images/_.png''
   \<and> ascii ''comment-images/'' @ spec_sanitize [0x130] @ ascii ''.png'' = ascii ''comment-images/i_.png''
   \<and> filePath [0x130] \<noteq> ascii ''comment-images/'' @ spec_sanitize [0x130] @ ascii ''.png''"
  by (simp add: filePath_def spec_sanitize_def is_lower_alnum_def replace_non_alnum_def
        is_alnum_def toLowerCase_def lower_unit_def ascii_def)

text \<open>
  Claim C6, amended. The file is \<open>comment-images/\<close>, the user name with every code unit
  that is not an ASCII letter or digit replaced by an underscore and the ASCII letters
  lower-cased, and \<open>.png\<close>; for a user name of ASCII characters this is the lower-cased
  name with every character outside \<open>[a-z0-9]\<close> replaced. \<open>O'Brien!\<close> gives
  \<open>o_brien_.png\<close>. When two comments rendered one after the other give the same file
  name, the files are in the end what rendering the second alone leaves.
\<close>

theorem filename_is_sanitized_username:
  "filePath name = ascii ''comment-images/'' @ map sanitize_unit name @ ascii ''.png''
   \<and> (list_all (\<lambda>c. c < 0x80) name \<longrightarrow>
        filePath name = ascii ''comment-images/'' @ spec_sanitize name @ ascii ''.png'')
   \<and> filePath (ascii ''O'Brien!'') = ascii ''comment-images/o_brien_.png''
   \<and> (filePath (username c1) = filePath (username c2)
        \<and> generateCustomComments E [c1, c2] th st = Return u st' \<longrightarrow>
        (\<exists>st''. generateCustomComments E [c2] th st = Return () st'' \<and> files st' = files st''))"
proof (intro conjI impI)
  show "filePath name = ascii ''comment-images/'' @ map sanitize_unit name @ ascii ''.png''"
    by (simp add: filePath_def toLowerCase_replace)
  show "filePath name = ascii ''comment-images/'' @ spec_sanitize name @ ascii ''.png''"
    if "list_all (\<lambda>c. c < 0x80) name"
    using that by (simp add: filePath_def toLowerCase_replace spec_sanitize_ascii)
  show "filePath (ascii ''O'Brien!'') = ascii ''comment-images/o_brien_.png''"
    by (simp add: filePath_def replace_non_alnum_def is_alnum_def toLowerCase_def
          lower_unit_def ascii_def)
  show "\<exists>st''. generateCustomComments E [c2] th st = Return () st'' \<and> files st' = files st''"
    if "filePath (username c1) = filePath (username c2)
        \<and> generateCustomComments E [c1, c2] th st = Return u st'"
    using that later_render_overwrites by blast
qed

theorem filename_is_sanitized_username_witness:
  "list_all (\<lambda>c. c < 0x80) (username obrien_first)
   \<and> filePath (username obrien_first) = filePath (username obrien_second)
   \<and> generateCustomComments sample_env [obrien_first, obrien_second] (ascii ''light'') st0
       = Return () obrien_final
   \<and> filePath (username obrien_first)
       = ascii ''comment-images/'' @ spec_sanitize (username obrien_first) @ ascii ''.png''
   \<and> (\<exists>st''. generateCustomComments sample_env [obrien_second] (ascii ''light'') st0 = Return () st''
          \<and> files obrien_final = files st'')"
proof -
  have ascii_name: "list_all (\<lambda>c. c < 0x80) (username obrien_first)"
    by (simp add: obrien_first_def obrien_second_def obrien_final_def ascii_def)
  have same: "filePath (username obrien_first) = filePath (username obrien_second)"
    by (simp add: obrien_first_def obrien_second_def obrien_final_def filePath_def replace_non_alnum_def is_alnum_def toLowerCase_def
          lower_unit_def ascii_def)
  have run: "generateCustomComments sample_env [obrien_first, obrien_second] (ascii ''light'') st0
       = Return () obrien_final"
    by (simp add: obrien_first_def obrien_second_def obrien_final_def sample_defs model_defs Let_def)
  note inst = filename_is_sanitized_username
    [of "username obrien_first" obrien_first obrien_second sample_env "ascii ''light''" st0 "()" obrien_final]
  from inst ascii_name same run show ?thesis by blast
qed

text \<open>
  Claim C7 as stated, N records giving exactly N image files, fails for two records whose
  user names give the same file name: starting with no file, the run ends with one.
\<close>

theorem custom_render_file_count_counterexample:
  "generateCustomComments sample_env [obrien_first, obrien_second] (ascii ''light'') st0
     = Return () obrien_final
   \<and> files st0 = Map.empty
   \<and> dom (files obrien_final) = {ascii ''comment-images/o_brien_.png''}
   \<and> card (dom (files obrien_final)) \<noteq> length [obrien_first, obrien_second]"
  by (simp add: obrien_first_def obrien_second_def obrien_final_def sample_defs model_defs Let_def)

text \<open>
  Claim C7, amended. When \<open>generateCustomComments\<close> returns on N records, whatever the
  criteria, which it does not take, it has invoked the renderer N times, once per record
  and in list order, and written N screenshots, in list order, to the file names of the
  records; the files on disk are those before and those written. The number of distinct
  files written is at most N, and is N exactly when the file names of the records are
  pairwise distinct.
\<close>

theorem custom_render_writes_in_order:
  assumes "generateCustomComments E comments th st = Return u st'"
  shows "\<exists>evs. trace st' = trace st @ evs
     \<and> filter is_invocation evs = map (\<lambda>c. Log_Date (datePosted c)) comments
     \<and> written evs = map (\<lambda>c. filePath (username c)) comments
     \<and> dom (files st') = dom (files st) \<union> set (written evs)
     \<and> card (set (written evs)) \<le> length comments
     \<and> (card (set (written evs)) = length comments
          \<longleftrightarrow> distinct (map (\<lambda>c. filePath (username c)) comments))"
proof -
  from generateCustomComments_effect [OF assms] obtain evs where evs:
    "trace st' = trace st @ evs"
    "filter is_invocation evs = map (\<lambda>c. Log_Date (datePosted c)) comments"
    "written evs = map (\<lambda>c. filePath (username c)) comments"
    "dom (files st') = dom (files st) \<union> set (map (\<lambda>c. filePath (username c)) comments)"
    by blast
  let ?paths = "map (\<lambda>c. filePath (username c)) comments"
  have "card (set ?paths) \<le> length comments"
    using card_length [of ?paths] by simp
  moreover have "card (set ?paths) = length comments \<longleftrightarrow> distinct ?paths"
    using card_distinct [of ?paths] distinct_card [of ?paths] by auto
  ultimately show ?thesis using evs by (intro exI[of _ evs]) simp
qed

theorem custom_render_writes_in_order_witness:
  "generateCustomComments sample_env readme_comments (ascii ''light'') st0 = Return () readme_final
   \<and> (\<exists>evs. trace readme_final = trace st0 @ evs
     \<and> filter is_invocation evs = map (\<lambda>c. Log_Date (datePosted c)) readme_comments
     \<and> written evs = map (\<lambda>c. filePath (username c)) readme_comments
     \<and> dom (files readme_final) = dom (files st0) \<union> set (written evs)
     \<and> card (set (written evs)) \<le> length readme_comments
     \<and> (card (set (written evs)) = length readme_comments
          \<longleftrightarrow> distinct (map (\<lambda>c. filePath (username c)) readme_comments)))"
proof -
  have run: "generateCustomComments sample_env readme_comments (ascii ''light'') st0
      = Return () readme_final"
    by (simp add: readme_comments_def readme_final_def sample_defs model_defs Let_def)
  from run custom_render_writes_in_order [OF run] show ?thesis by blast
qed

text \<open>
  Claim C8. The renderer takes the date of \<open>parseISO\<close> when it is valid and the date of
  \<open>new Date\<close> otherwise. When both give the Invalid Date, \<open>formatDistanceToNow\<close> throws
  outside the \<open>try\<close> block: the render throws a \<open>RangeError\<close> after logging the date,
  the custom-render path throws with it before any later record, and so does the loop
  over the items of a page.
\<close>

theorem invalid_date_aborts_render:
  "(parseISO E d = Inr dt \<longrightarrow>
      parse_datePosted E d st = Return (if isValid dt then dt else newDate E d) (emit (Log_Date d) st))
   \<and> (parseISO E (datePosted cd) = Inr InvalidDate \<and> newDate E (datePosted cd) = InvalidDate \<longrightarrow>
        generateCommentImage E cd th st
          = Throw RangeError_InvalidTime (emit (Log_Date (datePosted cd)) st)
        \<and> generateCustomComments E (cd # rest) th st
          = Throw RangeError_InvalidTime (emit (Log_Date (datePosted cd)) st))
   \<and> (parseISO E (publishedAt it) = Inr InvalidDate \<and> newDate E (publishedAt it) = InvalidDate
        \<and> totalCommentsFetched st < maxLimit p \<and> matched p (toLowerCase (textDisplay it))
        \<and> reason p it = [] \<longrightarrow>
        items_loop E p (it # its) st
          = Throw RangeError_InvalidTime (emit (Log_Date (publishedAt it)) st))"
proof (intro conjI impI)
  show "parse_datePosted E d st = Return (if isValid dt then dt else newDate E d) (emit (Log_Date d) st)"
    if "parseISO E d = Inr dt"
    using that by (simp add: parse_datePosted_def Let_def)
next
  assume a: "parseISO E (datePosted cd) = Inr InvalidDate \<and> newDate E (datePosted cd) = InvalidDate"
  then show "generateCommentImage E cd th st
       = Throw RangeError_InvalidTime (emit (Log_Date (datePosted cd)) st)"
    by (simp add: invalid_date_throws)
  from a show "generateCustomComments E (cd # rest) th st
       = Throw RangeError_InvalidTime (emit (Log_Date (datePosted cd)) st)"
    by (simp add: invalid_date_throws)
next
  assume a: "parseISO E (publishedAt it) = Inr InvalidDate \<and> newDate E (publishedAt it) = InvalidDate
        \<and> totalCommentsFetched st < maxLimit p \<and> matched p (toLowerCase (textDisplay it))
        \<and> reason p it = []"
  then have "generateCommentImage E (commentData_of it) (theme p) st
       = Throw RangeError_InvalidTime (emit (Log_Date (datePosted (commentData_of it))) st)"
    by (intro invalid_date_throws) (simp_all add: commentData_of_def)
  with a show "items_loop E p (it # its) st
          = Throw RangeError_InvalidTime (emit (Log_Date (publishedAt it)) st)"
    by (simp add: commentData_of_def)
qed

theorem invalid_date_aborts_render_witness:
  "parseISO undated_env (ascii ''yesterday'') = Inr InvalidDate
   \<and> newDate undated_env (ascii ''yesterday'') = InvalidDate
   \<and> totalCommentsFetched st0 < maxLimit sample_params
   \<and> matched sample_params (toLowerCase (textDisplay undated_item))
   \<and> reason sample_params undated_item = []
   \<and> parse_datePosted undated_env (ascii ''yesterday'') st0
       = Return InvalidDate (emit (Log_Date (ascii ''yesterday'')) st0)
   \<and> generateCustomComments undated_env [commentData_of undated_item, obrien_first] (ascii ''dark'') st0
       = Throw RangeError_InvalidTime (emit (Log_Date (ascii ''yesterday'')) st0)
   \<and> items_loop undated_env sample_params [undated_item, cats_item] st0
       = Throw RangeError_InvalidTime (emit (Log_Date (ascii ''yesterday'')) st0)"
proof -
  have d: "datePosted (commentData_of undated_item) = ascii ''yesterday''"
      "publishedAt undated_item = ascii ''yesterday''"
    by (simp_all add: undated_item_def undated_env_def sample_defs commentData_of_def)
  have inv: "parseISO undated_env (ascii ''yesterday'') = Inr InvalidDate"
      "newDate undated_env (ascii ''yesterday'') = InvalidDate"
    by (simp_all add: undated_item_def undated_env_def sample_defs)
  have guard: "totalCommentsFetched st0 < maxLimit sample_params"
      "matched sample_params (toLowerCase (textDisplay undated_item))"
      "reason sample_params undated_item = []"
    by (simp_all add: undated_item_def undated_env_def sample_defs model_defs Let_def)
  note inst = invalid_date_aborts_render
    [of undated_env "ascii ''yesterday''" InvalidDate st0 "commentData_of undated_item"
        "ascii ''dark''" "[obrien_first]" undated_item sample_params "[cats_item]"]
  from inst inv(1) have "parse_datePosted undated_env (ascii ''yesterday'') st0
       = Return (if isValid InvalidDate then InvalidDate else newDate undated_env (ascii ''yesterday''))
           (emit (Log_Date (ascii ''yesterday'')) st0)"
    by blast
  then have p: "parse_datePosted undated_env (ascii ''yesterday'') st0
       = Return InvalidDate (emit (Log_Date (ascii ''yesterday'')) st0)"
    by (simp add: inv(2) isValid_def)
  from inst inv d have c: "generateCustomComments undated_env [commentData_of undated_item, obrien_first]
          (ascii ''dark'') st0
        = Throw RangeError_InvalidTime (emit (Log_Date (ascii ''yesterday'')) st0)"
    by (simp del: generateCustomComments.simps items_loop.simps)
  from inst inv d guard have i: "items_loop undated_env sample_params [undated_item, cats_item] st0
       = Throw RangeError_InvalidTime (emit (Log_Date (ascii ''yesterday'')) st0)"
    by (simp del: generateCustomComments.simps items_loop.simps)
  from inv guard p c i show ?thesis by (simp del: generateCustomComments.simps items_loop.simps)
qed



end
